theory Spec2Isabelle
  imports Complex_Main "HOL-Library.Word" "HOL-Library.Log_Nat"
begin

section \<open>Single-precision arithmetic of the C source\<close>

text \<open>
  The source computes in C \<^verbatim>\<open>float\<close>: IEEE 754 binary32 (24 significant bits, exponents
  of the last place from \<open>-149\<close> to \<open>104\<close>), every operation rounded to nearest with ties to
  even. A finite value is kept as its sign and its exact magnitude, a rational number; an
  operation computes the exact result and rounds it once.
\<close>

type_synonym u32 = "32 word"
type_synonym u64 = "64 word"

datatype f32 = NaN | Inf bool | Fin bool rat

text \<open>\<open>pow2 k\<close> is \<open>2\<^sup>k\<close> for an integer exponent of either sign.\<close>

definition pow2 :: "int \<Rightarrow> rat" where
  "pow2 k = (if 0 \<le> k then 2 ^ nat k else 1 / 2 ^ nat (- k))"

text \<open>The binary exponent of a positive rational: \<open>2\<^sup>k \<le> x < 2\<^sup>k\<^sup>+\<^sup>1\<close>.\<close>

definition ilog2 :: "rat \<Rightarrow> int" where
  "ilog2 x = (let (n, d) = quotient_of x; k = bitlen n - bitlen d
              in if pow2 k \<le> x then k else k - 1)"

text \<open>Rounding to the nearest integer, a tie going to the even neighbour.\<close>

definition rne :: "rat \<Rightarrow> int" where
  "rne x = (let f = \<lfloor>x\<rfloor>; r = x - of_int f
            in if r < 1 / 2 then f
               else if 1 / 2 < r then f + 1
               else if even f then f else f + 1)"

text \<open>
  The exponent of the unit in the last place of \<open>x\<close>: 24 significant bits, and never below
  the subnormal exponent \<open>-149\<close>.
\<close>

definition ulp_exp :: "rat \<Rightarrow> int" where
  "ulp_exp x = max (ilog2 x - 23) (- 149)"

definition round_mag :: "rat \<Rightarrow> rat" where
  "round_mag x =
     (if x = 0 then 0 else of_int (rne (x / pow2 (ulp_exp x))) * pow2 (ulp_exp x))"

text \<open>A rounded magnitude of \<open>2\<^sup>1\<^sup>2\<^sup>8\<close> or more overflows to infinity.\<close>

definition f32_round :: "bool \<Rightarrow> rat \<Rightarrow> f32" where
  "f32_round s x = (let y = round_mag x in if 2 ^ 128 \<le> y then Inf s else Fin s y)"

text \<open>A non-negative decimal literal with suffix \<^verbatim>\<open>f\<close>.\<close>

definition f32_lit :: "rat \<Rightarrow> f32" where
  "f32_lit x = f32_round False x"

text \<open>The values a \<^verbatim>\<open>float\<close> can hold.\<close>

fun valid_f32 :: "f32 \<Rightarrow> bool" where
  "valid_f32 NaN = True"
| "valid_f32 (Inf s) = True"
| "valid_f32 (Fin s x) = (0 \<le> x \<and> x < 2 ^ 128 \<and> round_mag x = x)"

fun fmul :: "f32 \<Rightarrow> f32 \<Rightarrow> f32" where
  "fmul NaN b = NaN"
| "fmul a NaN = NaN"
| "fmul (Inf s) (Inf t) = Inf (s \<noteq> t)"
| "fmul (Inf s) (Fin t y) = (if y = 0 then NaN else Inf (s \<noteq> t))"
| "fmul (Fin s x) (Inf t) = (if x = 0 then NaN else Inf (s \<noteq> t))"
| "fmul (Fin s x) (Fin t y) = f32_round (s \<noteq> t) (x * y)"

fun fdiv :: "f32 \<Rightarrow> f32 \<Rightarrow> f32" where
  "fdiv NaN b = NaN"
| "fdiv a NaN = NaN"
| "fdiv (Inf s) (Inf t) = NaN"
| "fdiv (Inf s) (Fin t y) = Inf (s \<noteq> t)"
| "fdiv (Fin s x) (Inf t) = Fin (s \<noteq> t) 0"
| "fdiv (Fin s x) (Fin t y) =
     (if y = 0 then (if x = 0 then NaN else Inf (s \<noteq> t))
      else f32_round (s \<noteq> t) (x / y))"

text \<open>
  Subtraction: the exact difference of the signed values, rounded. An exact zero is
  \<open>+0\<close>, except \<open>(-0) - (+0) = -0\<close>.
\<close>

definition signed_val :: "bool \<Rightarrow> rat \<Rightarrow> rat" where
  "signed_val s x = (if s then - x else x)"

fun fsub :: "f32 \<Rightarrow> f32 \<Rightarrow> f32" where
  "fsub NaN b = NaN"
| "fsub a NaN = NaN"
| "fsub (Inf s) (Inf t) = (if s = t then NaN else Inf s)"
| "fsub (Inf s) (Fin t y) = Inf s"
| "fsub (Fin s x) (Inf t) = Inf (\<not> t)"
| "fsub (Fin s x) (Fin t y) =
     (let d = signed_val s x - signed_val t y
      in if d = 0 then Fin (s \<and> \<not> t) 0 else f32_round (d < 0) \<bar>d\<bar>)"

text \<open>
  The cast \<^verbatim>\<open>(uint32_t)\<close> of a \<^verbatim>\<open>float\<close> discards the fractional part (truncation toward
  zero). C leaves the cast undefined when the integral part is not a \<^verbatim>\<open>uint32_t\<close> value,
  and for infinities and NaN: that is the error of the model.
\<close>

datatype error = UndefinedConversion

fun f32_to_u32 :: "f32 \<Rightarrow> error + u32" where
  "f32_to_u32 NaN = Inl UndefinedConversion"
| "f32_to_u32 (Inf s) = Inl UndefinedConversion"
| "f32_to_u32 (Fin s x) =
     (let v = (if s then - \<lfloor>x\<rfloor> else \<lfloor>x\<rfloor>)
      in if 0 \<le> v \<and> v < 2 ^ 32 then Inr (word_of_int v) else Inl UndefinedConversion)"

section \<open>Signal configuration\<close>

definition FREQUENCY_HZ :: f32 where
  "FREQUENCY_HZ = f32_lit 1000"

definition PULSE_WIDTH_US :: f32 where
  "PULSE_WIDTH_US = f32_lit 5"

definition PHASE_SHIFT_US :: f32 where
  "PHASE_SHIFT_US = f32_lit 5"

definition SIGNAL_DURATION_US :: u64 where
  "SIGNAL_DURATION_US = 5 * 1000 * 1000"

section \<open>Delay calculation\<close>

record delays =
  delay_A :: u32
  delay_B :: u32
  delay_C :: u32
  delay_D :: u32

text \<open>
  The loop counter sent to the PIO program for an event of \<open>c\<close> cycles: the program spends
  4 cycles of its own on every event.
\<close>

definition loop_counter :: "u32 \<Rightarrow> u32" where
  "loop_counter c = (if 4 < c then c - 4 else 0)"

subsection \<open>Button-gated program: the period residual\<close>

definition pio_clk_hz :: "f32 \<Rightarrow> f32 \<Rightarrow> f32" where
  "pio_clk_hz sys_clk_hz pio_clk_div = fdiv sys_clk_hz pio_clk_div"

definition period_s :: f32 where
  "period_s = fdiv (f32_lit 1) FREQUENCY_HZ"

definition total_pio_cycles :: "f32 \<Rightarrow> f32 \<Rightarrow> error + u32" where
  "total_pio_cycles sys_clk_hz pio_clk_div =
     f32_to_u32 (fmul period_s (pio_clk_hz sys_clk_hz pio_clk_div))"

definition pulse_width_cycles :: "f32 \<Rightarrow> f32 \<Rightarrow> error + u32" where
  "pulse_width_cycles sys_clk_hz pio_clk_div =
     f32_to_u32 (fmul (fmul PULSE_WIDTH_US (f32_lit (1 / 1000000)))
                      (pio_clk_hz sys_clk_hz pio_clk_div))"

definition phase_shift_cycles :: "f32 \<Rightarrow> f32 \<Rightarrow> error + u32" where
  "phase_shift_cycles sys_clk_hz pio_clk_div =
     f32_to_u32 (fmul (fmul PHASE_SHIFT_US (f32_lit (1 / 1000000)))
                      (pio_clk_hz sys_clk_hz pio_clk_div))"

text \<open>
  The four event durations in PIO cycles, before the overhead is taken off. Event D is
  what remains of the period, in unsigned 32-bit arithmetic.
\<close>

definition event_durations_gated :: "f32 \<Rightarrow> f32 \<Rightarrow> error + (u32 \<times> u32 \<times> u32 \<times> u32)" where
  "event_durations_gated sys_clk_hz pio_clk_div =
     (case total_pio_cycles sys_clk_hz pio_clk_div of
        Inl e \<Rightarrow> Inl e
      | Inr total_cyc \<Rightarrow>
     (case pulse_width_cycles sys_clk_hz pio_clk_div of
        Inl e \<Rightarrow> Inl e
      | Inr pulse_cyc \<Rightarrow>
     (case phase_shift_cycles sys_clk_hz pio_clk_div of
        Inl e \<Rightarrow> Inl e
      | Inr phase_cyc \<Rightarrow>
          (let event_A_duration = pulse_cyc;
               event_B_duration = phase_cyc;
               event_C_duration = pulse_cyc;
               event_D_duration =
                 total_cyc - event_A_duration - event_B_duration - event_C_duration
           in Inr (event_A_duration, event_B_duration, event_C_duration,
                   event_D_duration)))))"

definition calculate_delays_gated :: "f32 \<Rightarrow> f32 \<Rightarrow> error + delays" where
  "calculate_delays_gated sys_clk_hz pio_clk_div =
     (case event_durations_gated sys_clk_hz pio_clk_div of
        Inl e \<Rightarrow> Inl e
      | Inr (event_A_duration, event_B_duration, event_C_duration, event_D_duration) \<Rightarrow>
          Inr \<lparr>delay_A = loop_counter event_A_duration,
               delay_B = loop_counter event_B_duration,
               delay_C = loop_counter event_C_duration,
               delay_D = loop_counter event_D_duration\<rparr>)"

subsection \<open>Continuous program: the direct formula\<close>

definition period_us :: f32 where
  "period_us = fdiv (f32_lit 1000000) FREQUENCY_HZ"

definition duration_D_us :: f32 where
  "duration_D_us =
     fsub (fsub (fsub period_us PULSE_WIDTH_US) PHASE_SHIFT_US) PULSE_WIDTH_US"

definition cycles_of :: "f32 \<Rightarrow> f32 \<Rightarrow> error + u32" where
  "cycles_of duration_us pio_freq_hz =
     f32_to_u32 (fmul duration_us (fdiv pio_freq_hz (f32_lit 1000000)))"

definition cycles_cont :: "f32 \<Rightarrow> f32 \<Rightarrow> error + (u32 \<times> u32 \<times> u32 \<times> u32)" where
  "cycles_cont sys_clk_hz pio_clk_div =
     (let pio_freq_hz = fdiv sys_clk_hz pio_clk_div
      in case cycles_of PULSE_WIDTH_US pio_freq_hz of
           Inl e \<Rightarrow> Inl e
         | Inr cycles_A \<Rightarrow>
        (case cycles_of PHASE_SHIFT_US pio_freq_hz of
           Inl e \<Rightarrow> Inl e
         | Inr cycles_B \<Rightarrow>
        (case cycles_of PULSE_WIDTH_US pio_freq_hz of
           Inl e \<Rightarrow> Inl e
         | Inr cycles_C \<Rightarrow>
        (case cycles_of duration_D_us pio_freq_hz of
           Inl e \<Rightarrow> Inl e
         | Inr cycles_D \<Rightarrow> Inr (cycles_A, cycles_B, cycles_C, cycles_D)))))"

definition calculate_delays_cont :: "f32 \<Rightarrow> f32 \<Rightarrow> error + delays" where
  "calculate_delays_cont sys_clk_hz pio_clk_div =
     (case cycles_cont sys_clk_hz pio_clk_div of
        Inl e \<Rightarrow> Inl e
      | Inr (cycles_A, cycles_B, cycles_C, cycles_D) \<Rightarrow>
          Inr \<lparr>delay_A = loop_counter cycles_A,
               delay_B = loop_counter cycles_B,
               delay_C = loop_counter cycles_C,
               delay_D = loop_counter cycles_D\<rparr>)"


subsection \<open>Storing the results through the four pointers\<close>

text \<open>
  \<^verbatim>\<open>calculate_delays\<close> returns nothing: it writes the four loop counters through its pointer
  arguments, \<^verbatim>\<open>*delay_A\<close> first and \<^verbatim>\<open>*delay_D\<close> last. The memory is a map from addresses
  to 32-bit words.
\<close>

type_synonym addr = nat
type_synonym memory = "addr \<Rightarrow> u32"

definition store_delays :: "addr \<Rightarrow> addr \<Rightarrow> addr \<Rightarrow> addr \<Rightarrow> delays \<Rightarrow> memory \<Rightarrow> memory" where
  "store_delays pA pB pC pD ds m =
     (((m(pA := delay_A ds))(pB := delay_B ds))(pC := delay_C ds))(pD := delay_D ds)"

definition calculate_delays_gated_store ::
  "f32 \<Rightarrow> f32 \<Rightarrow> addr \<Rightarrow> addr \<Rightarrow> addr \<Rightarrow> addr \<Rightarrow> memory \<Rightarrow> error + memory" where
  "calculate_delays_gated_store sys_clk_hz pio_clk_div pA pB pC pD m =
     (case calculate_delays_gated sys_clk_hz pio_clk_div of
        Inl e \<Rightarrow> Inl e
      | Inr ds \<Rightarrow> Inr (store_delays pA pB pC pD ds m))"

definition calculate_delays_cont_store ::
  "f32 \<Rightarrow> f32 \<Rightarrow> addr \<Rightarrow> addr \<Rightarrow> addr \<Rightarrow> addr \<Rightarrow> memory \<Rightarrow> error + memory" where
  "calculate_delays_cont_store sys_clk_hz pio_clk_div pA pB pC pD m =
     (case calculate_delays_cont sys_clk_hz pio_clk_div of
        Inl e \<Rightarrow> Inl e
      | Inr ds \<Rightarrow> Inr (store_delays pA pB pC pD ds m))"

subsection \<open>The period of the specification\<close>

text \<open>
  The specification's period in cycles, in its own words and in exact arithmetic:
  \<open>round (period_us * tick_freq_hz / 1e6)\<close> with \<open>period_us = 1e6 / frequency_hz\<close>, the
  frequency 1000 Hz and \<open>tick_freq_hz = sys_clk_hz / divider\<close>.
\<close>

definition spec_period_cycles :: "rat \<Rightarrow> rat \<Rightarrow> int" where
  "spec_period_cycles sys_clk divider =
     round ((1000000 / 1000) * (sys_clk / divider) / 1000000)"

text \<open>
  A raw cycle count \<open>raw\<close> and the value \<open>out\<close> stored for it: the count less the
  overhead of 4 when it exceeds 4, zero otherwise.
\<close>

definition overhead_removed :: "u32 \<Rightarrow> u32 \<Rightarrow> bool" where
  "overhead_removed raw out \<longleftrightarrow>
     uint out = (if 4 < uint raw then uint raw - 4 else 0) \<and>
     0 \<le> uint out \<and> (out = 0 \<longleftrightarrow> uint raw \<le> 4)"

section \<open>Feeding the PIO state machine\<close>

text \<open>
  What the program does to the outside is a sequence of events: the state machine is
  enabled or disabled, a word is put into its TX FIFO, the button pin or the timer is
  read. \<^verbatim>\<open>pio_sm_put_blocking\<close> waits for room in the FIFO and then queues the word; each
  call is taken to complete.
\<close>

datatype event = Enabled | Disabled | Put u32 | ButtonRead bool | TimeRead u64

definition pio_sm_put_blocking :: "u32 \<Rightarrow> event list \<Rightarrow> event list" where
  "pio_sm_put_blocking v tr = tr @ [Put v]"

text \<open>The body of both feeder loops: four blocking puts.\<close>

definition feed_quadruple :: "delays \<Rightarrow> event list \<Rightarrow> event list" where
  "feed_quadruple ds tr =
     pio_sm_put_blocking (delay_D ds)
       (pio_sm_put_blocking (delay_C ds)
         (pio_sm_put_blocking (delay_B ds)
           (pio_sm_put_blocking (delay_A ds) tr)))"

definition quadruple :: "delays \<Rightarrow> u32 list" where
  "quadruple ds = [delay_A ds, delay_B ds, delay_C ds, delay_D ds]"

text \<open>The words put into the FIFO, in order.\<close>

fun puts :: "event list \<Rightarrow> u32 list" where
  "puts [] = []"
| "puts (Put v # es) = v # puts es"
| "puts (e # es) = puts es"

subsection \<open>Continuous program\<close>

text \<open>
  \<^verbatim>\<open>while (true)\<close> around the four puts. A value \<open>Some tr\<close> would be the loop returning
  with the events \<open>tr\<close>; \<open>None\<close> is the loop running forever.
\<close>

partial_function (option) feeder_loop :: "delays \<Rightarrow> event list \<Rightarrow> event list option" where
  "feeder_loop ds tr = feeder_loop ds (feed_quadruple ds tr)"

text \<open>The events after \<open>n\<close> passes through the loop body.\<close>

fun feeder_iterations :: "nat \<Rightarrow> delays \<Rightarrow> event list \<Rightarrow> event list" where
  "feeder_iterations 0 ds tr = tr"
| "feeder_iterations (Suc n) ds tr = feeder_iterations n ds (feed_quadruple ds tr)"

subsection \<open>Button-gated program\<close>

text \<open>
  The main loop of the gated program reads the outside world at four places: the button
  test that starts a session (\<open>Idle\<close>), the reading of \<^verbatim>\<open>start_time\<close> right after the state
  machine is enabled (\<open>Armed\<close>), the elapsed-time test of the session loop
  (\<open>Emitting\<close>), and the button test of the release loop (\<open>Cooldown\<close>). One step runs the
  program from one reading to the next; the reading is the step's input. The button is
  wired to ground with a pull-up: \<^verbatim>\<open>gpio_get\<close> is false while it is pressed.
\<close>

datatype trigger_state = Idle | Armed | Emitting | Cooldown

record controller =
  state :: trigger_state
  start_time :: u64
  events :: "event list"

record reading =
  gpio_get :: bool
  get_absolute_time :: u64

text \<open>
  The SDK's \<^verbatim>\<open>absolute_time_diff_us\<close> is the difference of two microsecond counters as
  a signed 64-bit number; the comparison with the unsigned \<^verbatim>\<open>SIGNAL_DURATION_US\<close>
  converts it to unsigned.
\<close>

definition absolute_time_diff_us :: "u64 \<Rightarrow> u64 \<Rightarrow> u64" where
  "absolute_time_diff_us from_t to_t = to_t - from_t"

definition step :: "delays \<Rightarrow> reading \<Rightarrow> controller \<Rightarrow> controller" where
  "step ds r c =
     (case state c of
        Idle \<Rightarrow>
          (if \<not> gpio_get r
           then c\<lparr>state := Armed, events := events c @ [ButtonRead (gpio_get r), Enabled]\<rparr>
           else c\<lparr>events := events c @ [ButtonRead (gpio_get r)]\<rparr>)
      | Armed \<Rightarrow>
          c\<lparr>state := Emitting, start_time := get_absolute_time r,
            events := events c @ [TimeRead (get_absolute_time r)]\<rparr>
      | Emitting \<Rightarrow>
          (if absolute_time_diff_us (start_time c) (get_absolute_time r) < SIGNAL_DURATION_US
           then c\<lparr>events := feed_quadruple ds (events c @ [TimeRead (get_absolute_time r)])\<rparr>
           else c\<lparr>state := Cooldown,
                  events := events c @ [TimeRead (get_absolute_time r), Disabled]\<rparr>)
      | Cooldown \<Rightarrow>
          (if \<not> gpio_get r
           then c\<lparr>events := events c @ [ButtonRead (gpio_get r)]\<rparr>
           else c\<lparr>state := Idle, events := events c @ [ButtonRead (gpio_get r)]\<rparr>))"

fun run :: "delays \<Rightarrow> reading list \<Rightarrow> controller \<Rightarrow> controller" where
  "run ds [] c = c"
| "run ds (r # rs) c = run ds rs (step ds r c)"

definition initial :: controller where
  "initial = \<lparr>state = Idle, start_time = 0, events = []\<rparr>"

text \<open>
  A monitor for the events: \<open>pending\<close> is set by a disabling and cleared by a reading of
  the released button; no enabling may happen while it is set.
\<close>

fun pending_after :: "bool \<Rightarrow> event list \<Rightarrow> bool" where
  "pending_after p [] = p"
| "pending_after p (Disabled # es) = pending_after True es"
| "pending_after p (ButtonRead b # es) = pending_after (p \<and> \<not> b) es"
| "pending_after p (e # es) = pending_after p es"

fun rearm_ok :: "bool \<Rightarrow> event list \<Rightarrow> bool" where
  "rearm_ok p [] = True"
| "rearm_ok p (Enabled # es) = (\<not> p \<and> rearm_ok p es)"
| "rearm_ok p (Disabled # es) = rearm_ok True es"
| "rearm_ok p (ButtonRead b # es) = rearm_ok (p \<and> \<not> b) es"
| "rearm_ok p (e # es) = rearm_ok p es"

text \<open>
  The invariant of the controller: the events so far pass the monitor, and a release is
  pending only in \<open>Cooldown\<close>.
\<close>

definition release_inv :: "controller \<Rightarrow> bool" where
  "release_inv c \<longleftrightarrow>
     rearm_ok False (events c) \<and> (pending_after False (events c) \<longrightarrow> state c = Cooldown)"

text \<open>
  The passes of the session loop in a run: the steps that start in \<open>Emitting\<close> and find the
  elapsed time below the duration.
\<close>

definition session_pass :: "reading \<Rightarrow> controller \<Rightarrow> bool" where
  "session_pass r c \<longleftrightarrow>
     state c = Emitting \<and>
     absolute_time_diff_us (start_time c) (get_absolute_time r) < SIGNAL_DURATION_US"

fun session_passes :: "delays \<Rightarrow> reading list \<Rightarrow> controller \<Rightarrow> nat" where
  "session_passes ds [] c = 0"
| "session_passes ds (r # rs) c =
     (if session_pass r c then 1 else 0) + session_passes ds rs (step ds r c)"

text \<open>
  The events of a session that started at the timer reading \<open>s\<close> and has made the
  elapsed-time tests at the readings \<open>ts\<close>, each followed by one quadruple.
\<close>

definition session_events :: "delays \<Rightarrow> u64 \<Rightarrow> u64 list \<Rightarrow> event list" where
  "session_events ds s ts =
     Enabled # TimeRead s # concat (map (\<lambda>t. TimeRead t # map Put (quadruple ds)) ts)"

text \<open>
  Every disabling in a sequence of events closes such a session: all its tests but the
  last found the elapsed time below the duration, and the last one did not.
\<close>

definition sessions_closed :: "delays \<Rightarrow> event list \<Rightarrow> bool" where
  "sessions_closed ds tr \<longleftrightarrow>
     (\<forall>ys zs. tr = ys @ Disabled # zs \<longrightarrow>
        (\<exists>xs s ts t. ys = xs @ session_events ds s ts @ [TimeRead t] \<and>
           (\<forall>t' \<in> set ts. absolute_time_diff_us s t' < SIGNAL_DURATION_US) \<and>
           \<not> absolute_time_diff_us s t < SIGNAL_DURATION_US))"

definition session_inv :: "delays \<Rightarrow> controller \<Rightarrow> bool" where
  "session_inv ds c \<longleftrightarrow>
     sessions_closed ds (events c) \<and>
     (state c = Armed \<longrightarrow> (\<exists>xs. events c = xs @ [Enabled])) \<and>
     (state c = Emitting \<longrightarrow>
        (\<exists>xs ts. events c = xs @ session_events ds (start_time c) ts \<and>
           (\<forall>t' \<in> set ts.
              absolute_time_diff_us (start_time c) t' < SIGNAL_DURATION_US)))"

section \<open>Properties of the rounding\<close>

text \<open>
  What the delay calculation needs of the arithmetic: the binary exponent brackets its
  argument, and rounding a magnitude is monotone, never negative, and commutes with a
  multiplication by a power of two above the subnormal range.
\<close>

lemma pow2_powi: "pow2 k = 2 powi k"
  by (simp add: pow2_def power_int_def power_inverse [symmetric] inverse_eq_divide power_one_over)

lemma pow2_pos: "0 < pow2 k"
  by (simp add: pow2_powi)

lemma pow2_add: "pow2 (a + b) = pow2 a * pow2 b"
  by (simp add: pow2_powi power_int_add)

lemma pow2_diff: "pow2 (a - b) = pow2 a / pow2 b"
  by (simp add: pow2_powi power_int_diff)

lemma pow2_strict_mono: "a < b \<Longrightarrow> pow2 a < pow2 b"
  by (simp add: pow2_powi power_int_strict_increasing)

lemma pow2_mono: "a \<le> b \<Longrightarrow> pow2 a \<le> pow2 b"
  by (simp add: pow2_powi power_int_increasing)

lemma pow2_less_iff: "pow2 a < pow2 b \<longleftrightarrow> a < b"
  using pow2_strict_mono [of a b] pow2_mono [of b a] by (auto simp: not_less [symmetric])

lemma pow2_of_int: "0 \<le> k \<Longrightarrow> pow2 k = of_int (2 ^ nat k)"
  by (simp add: pow2_def)

lemma ilog2_bounds:
  assumes "0 < x"
  shows "pow2 (ilog2 x) \<le> x" and "x < pow2 (ilog2 x + 1)"
proof -
  obtain n d where q: "quotient_of x = (n, d)" by (cases "quotient_of x")
  have d: "0 < d" using q by (rule quotient_of_denom_pos)
  have x: "x = of_int n / of_int d" using q by (rule quotient_of_div)
  have n: "0 < n" using assms d x by (simp add: zero_less_divide_iff)
  define bn where "bn = bitlen n"
  define bd where "bd = bitlen d"
  have bn1: "1 \<le> bn" using n bitlen_eq_zero_iff [of n] bitlen_nonneg [of n] by (simp add: bn_def)
  have bd1: "1 \<le> bd" using d bitlen_eq_zero_iff [of d] bitlen_nonneg [of d] by (simp add: bd_def)
  have "2 ^ nat (bn - 1) \<le> n" "n < 2 ^ nat bn"
    using bitlen_bounds [OF n] by (simp_all add: bn_def)
  then have nb: "pow2 (bn - 1) \<le> of_int n" "of_int n < pow2 bn"
    using bn1 by (simp_all add: pow2_of_int del: of_int_power)
  have "2 ^ nat (bd - 1) \<le> d" "d < 2 ^ nat bd"
    using bitlen_bounds [OF d] by (simp_all add: bd_def)
  then have db: "pow2 (bd - 1) \<le> of_int d" "of_int d < pow2 bd"
    using bd1 by (simp_all add: pow2_of_int del: of_int_power)
  have dpos: "(0::rat) < of_int d" using d by simp
  have "x * of_int d = of_int n" using x dpos by simp
  have up: "x < pow2 (bn - bd + 1)"
  proof -
    have "of_int n < pow2 bn" by (rule nb)
    also have "\<dots> = pow2 (bn - bd + 1) * pow2 (bd - 1)"
      by (simp add: pow2_add [symmetric])
    also have "\<dots> \<le> pow2 (bn - bd + 1) * of_int d"
      using db(1) pow2_pos [of "bn - bd + 1"] by (simp add: mult_left_mono)
    finally show ?thesis using dpos x by (simp add: pos_divide_less_eq)
  qed
  have lo: "pow2 (bn - bd - 1) \<le> x"
  proof -
    have "pow2 (bn - bd - 1) * of_int d \<le> pow2 (bn - bd - 1) * pow2 bd"
      using db(2) pow2_pos [of "bn - bd - 1"] by (simp add: mult_left_mono)
    also have "\<dots> = pow2 (bn - 1)" by (simp add: pow2_add [symmetric])
    also have "\<dots> \<le> of_int n" by (rule nb)
    finally show ?thesis using dpos x by (simp add: pos_le_divide_eq)
  qed
  have il: "ilog2 x = (if pow2 (bn - bd) \<le> x then bn - bd else bn - bd - 1)"
    by (simp add: ilog2_def q bn_def bd_def Let_def)
  show "pow2 (ilog2 x) \<le> x" using lo by (simp add: il)
  show "x < pow2 (ilog2 x + 1)" using up by (simp add: il)
qed

lemma ilog2_unique:
  assumes "pow2 k \<le> x" "x < pow2 (k + 1)"
  shows "ilog2 x = k"
proof -
  have x: "0 < x" using assms(1) pow2_pos [of k] by simp
  have "pow2 (ilog2 x) < pow2 (k + 1)"
    using ilog2_bounds(1) [OF x] assms(2) by simp
  moreover have "pow2 k < pow2 (ilog2 x + 1)"
    using ilog2_bounds(2) [OF x] assms(1) by simp
  ultimately show ?thesis by (simp add: pow2_less_iff)
qed

lemma ilog2_mono:
  assumes "0 < x" "x \<le> y"
  shows "ilog2 x \<le> ilog2 y"
proof -
  have "pow2 (ilog2 x) < pow2 (ilog2 y + 1)"
    using ilog2_bounds(1) [OF assms(1)] ilog2_bounds(2) [of y] assms by simp
  then show ?thesis by (simp add: pow2_less_iff)
qed

lemma ilog2_scale:
  assumes "0 < x"
  shows "ilog2 (x * pow2 j) = ilog2 x + j"
proof (rule ilog2_unique)
  show "pow2 (ilog2 x + j) \<le> x * pow2 j"
    using ilog2_bounds(1) [OF assms] pow2_pos [of j] by (simp add: pow2_add)
  show "x * pow2 j < pow2 (ilog2 x + j + 1)"
    using ilog2_bounds(2) [OF assms] pow2_pos [of j] by (simp add: pow2_add)
qed


lemma rne_of_int: "rne (of_int n) = n"
  by (simp add: rne_def)

lemma rne_lower: "\<lfloor>x\<rfloor> \<le> rne x"
  by (simp add: rne_def Let_def)

lemma rne_upper: "rne x \<le> \<lfloor>x\<rfloor> + 1"
  by (simp add: rne_def Let_def)

lemma rne_mono:
  assumes "x \<le> y"
  shows "rne x \<le> rne y"
proof (cases "\<lfloor>x\<rfloor> < \<lfloor>y\<rfloor>")
  case True
  have "rne x \<le> \<lfloor>x\<rfloor> + 1" by (rule rne_upper)
  also have "\<dots> \<le> \<lfloor>y\<rfloor>" using True by simp
  also have "\<dots> \<le> rne y" by (rule rne_lower)
  finally show ?thesis .
next
  case False
  then have eq: "\<lfloor>x\<rfloor> = \<lfloor>y\<rfloor>" using floor_mono [OF assms] by simp
  have "x - of_int \<lfloor>y\<rfloor> \<le> y - of_int \<lfloor>y\<rfloor>" using assms by simp
  then show ?thesis by (auto simp: rne_def Let_def eq)
qed

lemma rne_le_int: "x \<le> of_int n \<Longrightarrow> rne x \<le> n"
  using rne_mono [of x "of_int n"] by (simp add: rne_of_int)

lemma rne_ge_int: "of_int n \<le> x \<Longrightarrow> n \<le> rne x"
  using rne_mono [of "of_int n" x] by (simp add: rne_of_int)

lemma round_mag_nonneg:
  assumes "0 \<le> x"
  shows "0 \<le> round_mag x"
proof -
  have "0 \<le> x / pow2 (ulp_exp x)" using assms pow2_pos [of "ulp_exp x"] by simp
  then have "0 \<le> rne (x / pow2 (ulp_exp x))" using rne_ge_int [of 0] by simp
  then show ?thesis using pow2_pos [of "ulp_exp x"] by (simp add: round_mag_def)
qed

lemma ulp_exp_mono: "0 < x \<Longrightarrow> x \<le> y \<Longrightarrow> ulp_exp x \<le> ulp_exp y"
  using ilog2_mono [of x y] by (simp add: ulp_exp_def)

lemma round_mag_mono:
  assumes "0 \<le> x" "x \<le> y"
  shows "round_mag x \<le> round_mag y"
proof (cases "x = 0")
  case True
  then show ?thesis using round_mag_nonneg [of y] assms by (simp add: round_mag_def)
next
  case False
  then have x: "0 < x" and y: "0 < y" using assms by simp_all
  define ex where "ex = ulp_exp x"
  define ey where "ey = ulp_exp y"
  have rx: "round_mag x = of_int (rne (x / pow2 ex)) * pow2 ex"
    using x by (simp add: round_mag_def ex_def)
  have ry: "round_mag y = of_int (rne (y / pow2 ey)) * pow2 ey"
    using y by (simp add: round_mag_def ey_def)
  have le: "ex \<le> ey" unfolding ex_def ey_def using x assms(2) by (rule ulp_exp_mono)
  show ?thesis
  proof (cases "ex = ey")
    case True
    have "x / pow2 ey \<le> y / pow2 ey"
      using assms(2) pow2_pos [of ey] by (simp add: divide_right_mono)
    then have "rne (x / pow2 ey) \<le> rne (y / pow2 ey)" by (rule rne_mono)
    then have "(of_int (rne (x / pow2 ey)) :: rat) \<le> of_int (rne (y / pow2 ey))" by simp
    then show ?thesis using pow2_pos [of ey] by (simp add: rx ry True mult_right_mono)
  next
    case False
    then have lt: "ex < ey" using le by simp
    have ey: "ey = ilog2 y - 23" using lt unfolding ex_def ey_def ulp_exp_def by linarith
    have "ilog2 x - 23 \<le> ex" unfolding ex_def ulp_exp_def by linarith
    then have il: "ilog2 x + 1 \<le> ilog2 y" using lt ey by simp
    define b where "b = pow2 (ilog2 y)"
    have "x < pow2 (ilog2 x + 1)" using x by (rule ilog2_bounds)
    also have "\<dots> \<le> b" unfolding b_def using il by (rule pow2_mono)
    finally have xb: "x < b" .
    have by': "b \<le> y" unfolding b_def using y by (rule ilog2_bounds)
    have "x / pow2 ex \<le> b / pow2 ex"
      using xb pow2_pos [of ex] by (simp add: divide_right_mono)
    also have "b / pow2 ex = pow2 (ilog2 y - ex)" by (simp add: b_def pow2_diff)
    also have "\<dots> = of_int (2 ^ nat (ilog2 y - ex))"
      using lt ey by (intro pow2_of_int) simp
    finally have "rne (x / pow2 ex) \<le> 2 ^ nat (ilog2 y - ex)" by (rule rne_le_int)
    then have "(of_int (rne (x / pow2 ex)) :: rat) \<le> of_int (2 ^ nat (ilog2 y - ex))"
      by (simp only: of_int_le_iff)
    also have "\<dots> = pow2 (ilog2 y - ex)"
      using lt ey by (intro pow2_of_int [symmetric]) simp
    finally have "round_mag x \<le> pow2 (ilog2 y - ex) * pow2 ex"
      using pow2_pos [of ex] by (simp add: rx mult_right_mono)
    then have 1: "round_mag x \<le> b" by (simp add: b_def pow2_add [symmetric])
    have "of_int (2 ^ 23) = pow2 23" by (simp add: pow2_def)
    also have "\<dots> = b / pow2 ey" by (simp add: b_def ey pow2_diff [symmetric])
    also have "\<dots> \<le> y / pow2 ey"
      using by' pow2_pos [of ey] by (simp add: divide_right_mono)
    finally have "2 ^ 23 \<le> rne (y / pow2 ey)" by (rule rne_ge_int)
    then have "(of_int (2 ^ 23) :: rat) \<le> of_int (rne (y / pow2 ey))"
      by (simp only: of_int_le_iff)
    then have "pow2 23 * pow2 ey \<le> round_mag y"
      using pow2_pos [of ey] by (simp add: ry pow2_def mult_right_mono)
    then have 2: "b \<le> round_mag y" by (simp add: b_def ey pow2_add [symmetric])
    show ?thesis using 1 2 by simp
  qed
qed

lemma round_mag_scale:
  assumes "0 < x" "- 126 \<le> ilog2 x" "0 \<le> j"
  shows "round_mag (x * pow2 j) = round_mag x * pow2 j"
proof -
  have e: "ulp_exp (x * pow2 j) = ulp_exp x + j"
    using assms by (simp add: ulp_exp_def ilog2_scale)
  have "x * pow2 j / pow2 (ulp_exp x + j) = x / pow2 (ulp_exp x)"
    using pow2_pos [of j] by (simp add: pow2_add)
  then show ?thesis
    using assms(1) pow2_pos [of j] by (simp add: round_mag_def e pow2_add)
qed

text \<open>
  A product with a factor at most a quarter of another's rounds and truncates to at most
  a third of the other product: the pulse and phase factors against the period.
\<close>

lemma floor_round_mag_quarter:
  assumes "0 \<le> x" "4 * x \<le> y"
  shows "3 * \<lfloor>round_mag x\<rfloor> \<le> \<lfloor>round_mag y\<rfloor>"
proof (cases "round_mag x < 1")
  case True
  have "0 \<le> round_mag x" using assms(1) by (rule round_mag_nonneg)
  then have "\<lfloor>round_mag x\<rfloor> = 0" using True by (simp add: floor_eq_iff)
  moreover have "0 \<le> y" using assms by simp
  then have "0 \<le> \<lfloor>round_mag y\<rfloor>" using round_mag_nonneg [of y] by simp
  ultimately show ?thesis by simp
next
  case False
  have half: "round_mag (1 / 2) = 1 / 2" by code_simp
  have xh: "1 / 2 \<le> x"
  proof (rule ccontr)
    assume "\<not> 1 / 2 \<le> x"
    then have "round_mag x \<le> round_mag (1 / 2)"
      using assms(1) by (intro round_mag_mono) simp_all
    then show False using False by (simp add: half)
  qed
  have "ilog2 (1 / 2) = - 1" by (rule ilog2_unique) (simp_all add: pow2_def)
  then have il: "- 126 \<le> ilog2 x" using ilog2_mono [of "1 / 2" x] xh by simp
  have x: "0 < x" using xh by simp
  have "round_mag (x * pow2 2) = round_mag x * pow2 2"
    using x il by (rule round_mag_scale) simp
  then have sc: "round_mag (4 * x) = 4 * round_mag x"
    by (simp add: pow2_def mult.commute)
  have "0 \<le> 4 * x" using x by simp
  then have le: "4 * round_mag x \<le> round_mag y"
    using round_mag_mono [of "4 * x" y] assms(2) by (simp add: sc)
  have r0: "0 \<le> \<lfloor>round_mag x\<rfloor>" using round_mag_nonneg [OF assms(1)] by simp
  have "of_int (4 * \<lfloor>round_mag x\<rfloor>) \<le> 4 * round_mag x" by simp
  also have "\<dots> \<le> round_mag y" by (rule le)
  finally have "4 * \<lfloor>round_mag x\<rfloor> \<le> \<lfloor>round_mag y\<rfloor>" by (simp only: le_floor_iff)
  then show ?thesis using r0 by linarith
qed

lemma f32_to_u32_round:
  assumes "0 \<le> x" "f32_to_u32 (f32_round s x) = Inr w"
  shows "uint w = \<lfloor>round_mag x\<rfloor>" and "f32_round s x = Fin s (round_mag x)"
proof -
  have r0: "0 \<le> \<lfloor>round_mag x\<rfloor>" using round_mag_nonneg [OF assms(1)] by simp
  show fin: "f32_round s x = Fin s (round_mag x)"
    using assms(2) by (simp add: f32_round_def Let_def split: if_splits)
  define v where "v = (if s then - \<lfloor>round_mag x\<rfloor> else \<lfloor>round_mag x\<rfloor>)"
  have "f32_to_u32 (Fin s (round_mag x)) = Inr w" using assms(2) by (simp only: fin)
  then have "(if 0 \<le> v \<and> v < 2 ^ 32 then Inr (word_of_int v) else Inl UndefinedConversion)
      = Inr w"
    by (simp only: f32_to_u32.simps Let_def v_def)
  then have v: "0 \<le> v" "v < 2 ^ 32" and w: "w = word_of_int v"
    by (auto split: if_splits)
  have "v = \<lfloor>round_mag x\<rfloor>"
  proof (cases s)
    case True
    then have "v = - \<lfloor>round_mag x\<rfloor>" by (simp add: v_def)
    then show ?thesis using v(1) r0 by linarith
  next
    case False
    then show ?thesis by (simp add: v_def)
  qed
  moreover have "uint w = v" using v by (simp add: w uint_word_of_int take_bit_int_eq_self)
  ultimately show "uint w = \<lfloor>round_mag x\<rfloor>" by simp
qed

lemma period_s_value: "period_s = Fin False (8589935 / 8589934592)"
  by code_simp

lemma pulse_factor_value:
  "fmul PULSE_WIDTH_US (f32_lit (1 / 1000000)) = Fin False (2748779 / 549755813888)"
  by code_simp

lemma phase_factor_value:
  "fmul PHASE_SHIFT_US (f32_lit (1 / 1000000)) = Fin False (2748779 / 549755813888)"
  by code_simp

lemma pio_clk_hz_nonneg:
  assumes "valid_f32 sys_clk_hz" "valid_f32 pio_clk_div"
    and "pio_clk_hz sys_clk_hz pio_clk_div = Fin s f"
  shows "0 \<le> f"
proof (cases sys_clk_hz)
  case NaN
  then show ?thesis using assms(3) by (simp add: pio_clk_hz_def)
next
  case (Inf t)
  then show ?thesis using assms(3) by (cases pio_clk_div) (simp_all add: pio_clk_hz_def)
next
  case sysF: (Fin t x)
  show ?thesis
  proof (cases pio_clk_div)
    case NaN
    then show ?thesis using assms(3) sysF by (simp add: pio_clk_hz_def)
  next
    case (Inf u)
    then show ?thesis using assms(3) sysF by (simp add: pio_clk_hz_def)
  next
    case (Fin u y)
    have "0 \<le> x / y" using assms(1,2) sysF Fin by simp
    then have "0 \<le> round_mag (x / y)" by (rule round_mag_nonneg)
    then show ?thesis
      using assms(3) sysF Fin
      by (auto simp: pio_clk_hz_def f32_round_def Let_def split: if_splits)
  qed
qed

text \<open>
  The gated program's durations, read as integers: the residual of event D is an exact
  difference.
\<close>

lemma gated_durations_exact:
  assumes "valid_f32 sys_clk_hz" "valid_f32 pio_clk_div"
    and "event_durations_gated sys_clk_hz pio_clk_div = Inr (a, b, c, d)"
  shows "\<exists>s x T. fmul period_s (pio_clk_hz sys_clk_hz pio_clk_div) = Fin s x \<and>
           total_pio_cycles sys_clk_hz pio_clk_div = Inr T \<and> uint T = \<lfloor>x\<rfloor> \<and>
           uint a + uint b + uint c \<le> uint T \<and>
           uint d = uint T - uint a - uint b - uint c"
proof -
  obtain T U V where T: "total_pio_cycles sys_clk_hz pio_clk_div = Inr T"
    and U: "pulse_width_cycles sys_clk_hz pio_clk_div = Inr U"
    and V: "phase_shift_cycles sys_clk_hz pio_clk_div = Inr V"
    and abcd: "a = U" "b = V" "c = U" "d = T - U - V - U"
    using assms(3) by (auto simp: event_durations_gated_def Let_def split: sum.splits)
  define p :: rat where "p = 8589935 / 8589934592"
  define q :: rat where "q = 2748779 / 549755813888"
  obtain s f where tick: "pio_clk_hz sys_clk_hz pio_clk_div = Fin s f"
    using T by (cases "pio_clk_hz sys_clk_hz pio_clk_div")
      (auto simp: total_pio_cycles_def period_s_value split: if_splits)
  have f: "0 \<le> f" using assms(1,2) tick by (rule pio_clk_hz_nonneg)
  have pf: "0 \<le> p * f" and qf: "0 \<le> q * f" using f by (simp_all add: p_def q_def)
  have T': "f32_to_u32 (f32_round s (p * f)) = Inr T"
    using T by (simp add: total_pio_cycles_def tick period_s_value p_def)
  have U': "f32_to_u32 (f32_round s (q * f)) = Inr U"
    using U by (simp add: pulse_width_cycles_def tick pulse_factor_value q_def)
  have V': "f32_to_u32 (f32_round s (q * f)) = Inr V"
    using V by (simp add: phase_shift_cycles_def tick phase_factor_value q_def)
  have uT: "uint T = \<lfloor>round_mag (p * f)\<rfloor>" using pf T' by (rule f32_to_u32_round)
  have uU: "uint U = \<lfloor>round_mag (q * f)\<rfloor>" using qf U' by (rule f32_to_u32_round)
  have uV: "uint V = \<lfloor>round_mag (q * f)\<rfloor>" using qf V' by (rule f32_to_u32_round)
  have "4 * (q * f) \<le> p * f" using f by (simp add: p_def q_def)
  with qf have "3 * \<lfloor>round_mag (q * f)\<rfloor> \<le> \<lfloor>round_mag (p * f)\<rfloor>"
    by (rule floor_round_mag_quarter)
  then have le: "uint U + uint V + uint U \<le> uint T" by (simp add: uT uU uV)
  have s1: "uint (T - U) = uint T - uint U"
    using le uint_ge_0 [of U] uint_ge_0 [of V] by (intro uint_sub_lem [THEN iffD1]) linarith
  have s2: "uint (T - U - V) = uint (T - U) - uint V"
    using le uint_ge_0 [of U] s1 by (intro uint_sub_lem [THEN iffD1]) linarith
  have s3: "uint (T - U - V - U) = uint (T - U - V) - uint U"
    using le s1 s2 by (intro uint_sub_lem [THEN iffD1]) linarith
  have sub: "uint (T - U - V - U) = uint T - uint U - uint V - uint U"
    by (simp only: s1 s2 s3)
  have "fmul period_s (pio_clk_hz sys_clk_hz pio_clk_div) = Fin s (round_mag (p * f))"
    using f32_to_u32_round(2) [OF pf T'] by (simp add: tick period_s_value p_def)
  then show ?thesis using T uT le sub by (simp add: abcd)
qed

section \<open>Properties of the delay calculation\<close>

lemma loop_counter_overhead_removed: "overhead_removed c (loop_counter c)"
proof (cases "4 < c")
  case True
  then have lt: "4 < uint c" by (simp add: word_less_def)
  then have "uint (4 :: u32) \<le> uint c" by simp
  then have sub: "uint (c - 4) = uint c - 4"
    using uint_sub_lem [of 4 c] by simp
  have "0 < uint (c - 4)" using lt sub by simp
  then have "c - 4 \<noteq> 0" by auto
  then show ?thesis using True lt sub by (simp add: overhead_removed_def loop_counter_def)
next
  case False
  then have "\<not> 4 < uint c" by (simp add: word_less_def)
  then show ?thesis using False by (simp add: overhead_removed_def loop_counter_def)
qed

text \<open>
  Claim C2. In both programs, whenever the raw cycle counts exist, \<^verbatim>\<open>calculate_delays\<close>
  stores four values, and each of them is its raw count less 4 when that count exceeds 4,
  and 0 otherwise; so it is never negative, and it is 0 exactly when the raw count is at
  most 4. Conversely every stored value has come from a raw count in this way.
\<close>

theorem delays_are_raw_minus_overhead:
  "(event_durations_gated sys_clk_hz pio_clk_div = Inr (a, b, c, d) \<longrightarrow>
      (\<exists>ds. calculate_delays_gated sys_clk_hz pio_clk_div = Inr ds \<and>
         overhead_removed a (delay_A ds) \<and> overhead_removed b (delay_B ds) \<and>
         overhead_removed c (delay_C ds) \<and> overhead_removed d (delay_D ds))) \<and>
   (cycles_cont sys_clk_hz pio_clk_div = Inr (a', b', c', d') \<longrightarrow>
      (\<exists>ds. calculate_delays_cont sys_clk_hz pio_clk_div = Inr ds \<and>
         overhead_removed a' (delay_A ds) \<and> overhead_removed b' (delay_B ds) \<and>
         overhead_removed c' (delay_C ds) \<and> overhead_removed d' (delay_D ds))) \<and>
   (calculate_delays_gated sys_clk_hz pio_clk_div = Inr gs \<longrightarrow>
      (\<exists>a b c d. event_durations_gated sys_clk_hz pio_clk_div = Inr (a, b, c, d) \<and>
         overhead_removed a (delay_A gs) \<and> overhead_removed b (delay_B gs) \<and>
         overhead_removed c (delay_C gs) \<and> overhead_removed d (delay_D gs))) \<and>
   (calculate_delays_cont sys_clk_hz pio_clk_div = Inr cs \<longrightarrow>
      (\<exists>a b c d. cycles_cont sys_clk_hz pio_clk_div = Inr (a, b, c, d) \<and>
         overhead_removed a (delay_A cs) \<and> overhead_removed b (delay_B cs) \<and>
         overhead_removed c (delay_C cs) \<and> overhead_removed d (delay_D cs)))"
  by (auto simp: calculate_delays_gated_def calculate_delays_cont_def
      loop_counter_overhead_removed split: sum.splits)

theorem delays_are_raw_minus_overhead_witness:
  "event_durations_gated (Fin False 133000000) (Fin False (25 / 2))
     = Inr (53, 53, 53, 10481) \<and>
   cycles_cont (Fin False 133000000) (Fin False (25 / 2)) = Inr (53, 53, 53, 10480) \<and>
   calculate_delays_gated (Fin False 133000000) (Fin False (25 / 2)) =
     Inr \<lparr>delay_A = 49, delay_B = 49, delay_C = 49, delay_D = 10477\<rparr> \<and>
   calculate_delays_cont (Fin False 133000000) (Fin False (25 / 2)) =
     Inr \<lparr>delay_A = 49, delay_B = 49, delay_C = 49, delay_D = 10476\<rparr> \<and>
   overhead_removed 53 49 \<and> overhead_removed 10481 10477 \<and> overhead_removed 10480 10476"
proof -
  let ?gs = "\<lparr>delay_A = 49, delay_B = 49, delay_C = 49, delay_D = 10477\<rparr>"
  let ?cs = "\<lparr>delay_A = 49, delay_B = 49, delay_C = 49, delay_D = 10476\<rparr>"
  have eg: "event_durations_gated (Fin False 133000000) (Fin False (25 / 2))
      = Inr (53, 53, 53, 10481)"
    by code_simp
  have ec: "cycles_cont (Fin False 133000000) (Fin False (25 / 2)) = Inr (53, 53, 53, 10480)"
    by code_simp
  have g: "calculate_delays_gated (Fin False 133000000) (Fin False (25 / 2)) = Inr ?gs"
    by code_simp
  have c: "calculate_delays_cont (Fin False 133000000) (Fin False (25 / 2)) = Inr ?cs"
    by code_simp
  from delays_are_raw_minus_overhead
    [of "Fin False 133000000" "Fin False (25 / 2)" 53 53 53 10481 53 53 53 10480 ?gs ?cs]
    eg ec g c
  show ?thesis by simp
qed

text \<open>
  Claim C1. For a system clock of 125,000,000 Hz and a divider of 12.5 (with the
  configured 1000 Hz, 5 us pulse width and 5 us phase shift) the gated program's
  \<^verbatim>\<open>calculate_delays\<close> yields exactly A = 46, B = 46, C = 46 and D = 9846.
\<close>

theorem calculate_delays_gated_default:
  "calculate_delays_gated (Fin False 125000000) (Fin False (25 / 2)) =
     Inr \<lparr>delay_A = 46, delay_B = 46, delay_C = 46, delay_D = 9846\<rparr>"
  by code_simp

text \<open>
  Claim C3. The claim reads: the four raw counts of the gated program sum to
  \<open>round (period_us * tick_freq_hz / 1e6)\<close>. At 125 MHz with the divider 65536 the tick
  frequency is 1907.3486328125 Hz, the raw counts are 0, 0, 0 and 1, and the rounded
  period is 2 cycles: the sum is 1.
\<close>

theorem period_conservation_round_counterexample:
  "valid_f32 (Fin False 125000000) \<and> valid_f32 (Fin False 65536) \<and>
   event_durations_gated (Fin False 125000000) (Fin False 65536) = Inr (0, 0, 0, 1) \<and>
   uint (0 :: u32) + uint (0 :: u32) + uint (0 :: u32) + uint (1 :: u32)
     \<noteq> spec_period_cycles 125000000 65536"
  by code_simp

text \<open>
  Claim C3, amended. The four raw counts sum, as integers, to the single-precision product
  \<^verbatim>\<open>period_s * pio_clk_hz\<close> truncated toward zero (not rounded to nearest), whenever the
  conversions are defined.
\<close>

theorem period_conservation_truncated:
  assumes "valid_f32 sys_clk_hz" "valid_f32 pio_clk_div"
    and "event_durations_gated sys_clk_hz pio_clk_div = Inr (a, b, c, d)"
  shows "\<exists>s x. fmul period_s (pio_clk_hz sys_clk_hz pio_clk_div) = Fin s x \<and>
           uint a + uint b + uint c + uint d = \<lfloor>x\<rfloor>"
  using gated_durations_exact [OF assms] by auto

theorem period_conservation_truncated_witness:
  "valid_f32 (Fin False 125000000) \<and> valid_f32 (Fin False 65536) \<and>
   event_durations_gated (Fin False 125000000) (Fin False 65536) = Inr (0, 0, 0, 1) \<and>
   (\<exists>s x. fmul period_s (pio_clk_hz (Fin False 125000000) (Fin False 65536)) = Fin s x \<and>
      uint (0 :: u32) + uint (0 :: u32) + uint (0 :: u32) + uint (1 :: u32) = \<lfloor>x\<rfloor>)"
proof -
  have v1: "valid_f32 (Fin False 125000000)" by code_simp
  have v2: "valid_f32 (Fin False 65536)" by code_simp
  have e: "event_durations_gated (Fin False 125000000) (Fin False 65536) = Inr (0, 0, 0, 1)"
    by code_simp
  show ?thesis using v1 v2 e period_conservation_truncated [OF v1 v2 e] by blast
qed

text \<open>
  Claim C10. In the gated program the subtraction
  \<^verbatim>\<open>total_pio_cycles - event_A_duration - event_B_duration - event_C_duration\<close> never
  wraps around: whenever the three conversions are defined, the counts of A, B and C sum
  to at most \<^verbatim>\<open>total_pio_cycles\<close>. (The configured 5 us, 5 us and 1000 Hz satisfy
  \<open>2 * 5 + 5 < 1000\<close>; the statement holds for every tick frequency, of either sign.)
\<close>

theorem residual_no_underflow:
  assumes "valid_f32 sys_clk_hz" "valid_f32 pio_clk_div"
    and "total_pio_cycles sys_clk_hz pio_clk_div = Inr T"
    and "event_durations_gated sys_clk_hz pio_clk_div = Inr (a, b, c, d)"
  shows "uint a + uint b + uint c \<le> uint T \<and>
         d = T - a - b - c \<and>
         uint (T - a - b - c) = uint T - uint a - uint b - uint c"
proof -
  have d: "d = T - a - b - c"
    using assms(3,4) by (auto simp: event_durations_gated_def Let_def split: sum.splits)
  show ?thesis using gated_durations_exact [OF assms(1,2,4)] assms(3) d by auto
qed

theorem residual_no_underflow_witness:
  "valid_f32 (Fin False 125000000) \<and> valid_f32 (Fin False 3) \<and>
   total_pio_cycles (Fin False 125000000) (Fin False 3) = Inr 41666 \<and>
   event_durations_gated (Fin False 125000000) (Fin False 3) = Inr (208, 208, 208, 41042) \<and>
   uint (208 :: u32) + uint (208 :: u32) + uint (208 :: u32) \<le> uint (41666 :: u32) \<and>
   uint (41666 - 208 - 208 - 208 :: u32)
     = uint (41666 :: u32) - uint (208 :: u32) - uint (208 :: u32) - uint (208 :: u32)"
proof -
  have v1: "valid_f32 (Fin False 125000000)" by code_simp
  have v2: "valid_f32 (Fin False 3)" by code_simp
  have t: "total_pio_cycles (Fin False 125000000) (Fin False 3) = Inr 41666" by code_simp
  have e: "event_durations_gated (Fin False 125000000) (Fin False 3)
      = Inr (208, 208, 208, 41042)"
    by code_simp
  show ?thesis using v1 v2 t e residual_no_underflow [OF v1 v2 t e] by blast
qed

text \<open>
  Claim C9. At the default configuration, 125,000,000 Hz and a divider of 12.5, the direct
  formula of the continuous program and the period residual of the gated program give
  the same four values.
\<close>

theorem variants_agree_default:
  "calculate_delays_cont (Fin False 125000000) (Fin False (25 / 2)) =
     Inr \<lparr>delay_A = 46, delay_B = 46, delay_C = 46, delay_D = 9846\<rparr> \<and>
   calculate_delays_gated (Fin False 125000000) (Fin False (25 / 2)) =
     Inr \<lparr>delay_A = 46, delay_B = 46, delay_C = 46, delay_D = 9846\<rparr>"
  by code_simp

text \<open>
  Claim C7. \<^verbatim>\<open>calculate_delays\<close> is deterministic and free of side effects, in both
  programs: a call that returns from one memory returns from every other memory with the
  same four output values, which depend on the arguments alone, and it leaves every
  address other than the four output locations as it was.
\<close>

theorem calculate_delays_deterministic:
  "(calculate_delays_gated_store sys_clk_hz pio_clk_div pA pB pC pD m1 = Inr r1 \<longrightarrow>
      (\<exists>r2. calculate_delays_gated_store sys_clk_hz pio_clk_div pA pB pC pD m2 = Inr r2 \<and>
         r2 pA = r1 pA \<and> r2 pB = r1 pB \<and> r2 pC = r1 pC \<and> r2 pD = r1 pD) \<and>
      (\<forall>a. a \<notin> {pA, pB, pC, pD} \<longrightarrow> r1 a = m1 a)) \<and>
   (calculate_delays_cont_store sys_clk_hz pio_clk_div pA pB pC pD m1 = Inr r1' \<longrightarrow>
      (\<exists>r2. calculate_delays_cont_store sys_clk_hz pio_clk_div pA pB pC pD m2 = Inr r2 \<and>
         r2 pA = r1' pA \<and> r2 pB = r1' pB \<and> r2 pC = r1' pC \<and> r2 pD = r1' pD) \<and>
      (\<forall>a. a \<notin> {pA, pB, pC, pD} \<longrightarrow> r1' a = m1 a))"
  by (auto simp: calculate_delays_gated_store_def calculate_delays_cont_store_def
      store_delays_def split: sum.splits)

theorem calculate_delays_deterministic_witness:
  "calculate_delays_gated_store (Fin False 125000000) (Fin False (25 / 2)) 0 1 2 3 (\<lambda>a. 0)
     = Inr (store_delays 0 1 2 3
         \<lparr>delay_A = 46, delay_B = 46, delay_C = 46, delay_D = 9846\<rparr> (\<lambda>a. 0)) \<and>
   calculate_delays_cont_store (Fin False 125000000) (Fin False (25 / 2)) 0 1 2 3 (\<lambda>a. 0)
     = Inr (store_delays 0 1 2 3
         \<lparr>delay_A = 46, delay_B = 46, delay_C = 46, delay_D = 9846\<rparr> (\<lambda>a. 0)) \<and>
   (\<exists>r2. calculate_delays_gated_store (Fin False 125000000) (Fin False (25 / 2)) 0 1 2 3
            (\<lambda>a. 7) = Inr r2 \<and>
      r2 0 = 46 \<and> r2 1 = 46 \<and> r2 2 = 46 \<and> r2 3 = 9846) \<and>
   (\<exists>r2. calculate_delays_cont_store (Fin False 125000000) (Fin False (25 / 2)) 0 1 2 3
            (\<lambda>a. 7) = Inr r2 \<and>
      r2 0 = 46 \<and> r2 1 = 46 \<and> r2 2 = 46 \<and> r2 3 = 9846) \<and>
   store_delays 0 1 2 3 \<lparr>delay_A = 46, delay_B = 46, delay_C = 46, delay_D = 9846\<rparr>
     (\<lambda>a. 0) 4 = 0"
proof -
  let ?ds = "\<lparr>delay_A = 46, delay_B = 46, delay_C = 46, delay_D = 9846\<rparr>"
  let ?r = "store_delays 0 1 2 3 ?ds (\<lambda>a. 0)"
  have "calculate_delays_gated (Fin False 125000000) (Fin False (25 / 2)) = Inr ?ds"
    by code_simp
  then have g: "calculate_delays_gated_store (Fin False 125000000) (Fin False (25 / 2))
      0 1 2 3 (\<lambda>a. 0) = Inr ?r"
    by (simp add: calculate_delays_gated_store_def)
  have "calculate_delays_cont (Fin False 125000000) (Fin False (25 / 2)) = Inr ?ds"
    by code_simp
  then have c: "calculate_delays_cont_store (Fin False 125000000) (Fin False (25 / 2))
      0 1 2 3 (\<lambda>a. 0) = Inr ?r"
    by (simp add: calculate_delays_cont_store_def)
  have r: "?r 0 = 46" "?r 1 = 46" "?r 2 = 46" "?r 3 = 9846" "?r 4 = 0"
    by (simp_all add: store_delays_def)
  from calculate_delays_deterministic
    [of "Fin False 125000000" "Fin False (25 / 2)" 0 1 2 3 "\<lambda>a. 0" ?r "\<lambda>a. 7" ?r] g c r
  show ?thesis by simp
qed

section \<open>Properties of the feeder loops\<close>

lemma feed_quadruple_append:
  "feed_quadruple ds tr =
     tr @ [Put (delay_A ds), Put (delay_B ds), Put (delay_C ds), Put (delay_D ds)]"
  by (simp add: feed_quadruple_def pio_sm_put_blocking_def)

lemma puts_append: "puts (xs @ ys) = puts xs @ puts ys"
  by (induction xs rule: puts.induct) simp_all

lemma puts_feed_quadruple: "puts (feed_quadruple ds tr) = puts tr @ quadruple ds"
  by (simp add: feed_quadruple_append puts_append quadruple_def)

lemma concat_replicate_snoc: "concat (replicate k q) @ q = concat (replicate (Suc k) q)"
  by (induction k) simp_all

lemma puts_feeder_iterations:
  "puts (feeder_iterations n ds tr) = puts tr @ concat (replicate n (quadruple ds))"
proof (induction n arbitrary: tr)
  case 0
  show ?case by simp
next
  case (Suc n)
  have "puts (feeder_iterations (Suc n) ds tr)
      = (puts tr @ quadruple ds) @ concat (replicate n (quadruple ds))"
    by (simp add: Suc.IH puts_feed_quadruple)
  then show ?case by simp
qed

lemma puts_step_pass:
  "puts (events (step ds r c)) =
     puts (events c) @ (if session_pass r c then quadruple ds else [])"
  by (cases "state c")
    (auto simp: step_def session_pass_def puts_feed_quadruple puts_append)

lemma puts_run_passes:
  "puts (events (run ds rs c)) =
     puts (events c) @ concat (replicate (session_passes ds rs c) (quadruple ds))"
proof (induction rs arbitrary: c)
  case Nil
  show ?case by simp
next
  case (Cons r rs)
  show ?case by (simp add: Cons.IH puts_step_pass)
qed

text \<open>
  Claim C4. Each pass through the feeder loop puts A, then B, then C, then D, with nothing
  skipped or reordered. The loop body appends exactly these four puts. The continuous
  program has put \<open>n\<close> whole quadruples after \<open>n\<close> passes. In the gated program a step
  that finds the session running and its time not yet elapsed reads the timer and then
  puts A, B, C, D; no other step puts anything; so the words put in a run are one
  quadruple for each pass of the session loop, in order.
\<close>

theorem quadruple_pushed_in_order:
  "feed_quadruple ds tr =
     tr @ [Put (delay_A ds), Put (delay_B ds), Put (delay_C ds), Put (delay_D ds)] \<and>
   puts (feeder_iterations n ds [Enabled]) = concat (replicate n (quadruple ds)) \<and>
   (session_pass r c \<longrightarrow>
      state (step ds r c) = Emitting \<and>
      events (step ds r c) = events c @
        [TimeRead (get_absolute_time r),
         Put (delay_A ds), Put (delay_B ds), Put (delay_C ds), Put (delay_D ds)]) \<and>
   (\<not> session_pass r' c' \<longrightarrow> puts (events (step ds r' c')) = puts (events c')) \<and>
   puts (events (run ds rs initial)) =
     concat (replicate (session_passes ds rs initial) (quadruple ds))"
proof -
  have "puts (events (run ds rs initial)) =
      concat (replicate (session_passes ds rs initial) (quadruple ds))"
    by (simp add: puts_run_passes initial_def)
  moreover have "session_pass r c \<longrightarrow>
      state (step ds r c) = Emitting \<and>
      events (step ds r c) = events c @
        [TimeRead (get_absolute_time r),
         Put (delay_A ds), Put (delay_B ds), Put (delay_C ds), Put (delay_D ds)]"
    by (simp add: session_pass_def step_def feed_quadruple_append)
  ultimately show ?thesis
    by (simp add: feed_quadruple_append puts_feeder_iterations puts_step_pass)
qed

theorem quadruple_pushed_in_order_witness:
  "session_pass \<lparr>gpio_get = False, get_absolute_time = 102\<rparr>
     \<lparr>state = Emitting, start_time = 101,
      events = [ButtonRead False, Enabled, TimeRead 101]\<rparr> \<and>
   \<not> session_pass \<lparr>gpio_get = False, get_absolute_time = 100\<rparr> initial \<and>
   events (step \<lparr>delay_A = 46, delay_B = 46, delay_C = 46, delay_D = 9846\<rparr>
     \<lparr>gpio_get = False, get_absolute_time = 102\<rparr>
     \<lparr>state = Emitting, start_time = 101,
      events = [ButtonRead False, Enabled, TimeRead 101]\<rparr>)
     = [ButtonRead False, Enabled, TimeRead 101,
        TimeRead 102, Put 46, Put 46, Put 46, Put 9846] \<and>
   puts (events (step \<lparr>delay_A = 46, delay_B = 46, delay_C = 46, delay_D = 9846\<rparr>
     \<lparr>gpio_get = False, get_absolute_time = 100\<rparr> initial)) = [] \<and>
   session_passes \<lparr>delay_A = 46, delay_B = 46, delay_C = 46, delay_D = 9846\<rparr>
      [\<lparr>gpio_get = False, get_absolute_time = 100\<rparr>,
       \<lparr>gpio_get = False, get_absolute_time = 101\<rparr>,
       \<lparr>gpio_get = False, get_absolute_time = 102\<rparr>,
       \<lparr>gpio_get = False, get_absolute_time = 1101\<rparr>,
       \<lparr>gpio_get = False, get_absolute_time = 5000101\<rparr>] initial = 2 \<and>
   puts (events (run \<lparr>delay_A = 46, delay_B = 46, delay_C = 46, delay_D = 9846\<rparr>
      [\<lparr>gpio_get = False, get_absolute_time = 100\<rparr>,
       \<lparr>gpio_get = False, get_absolute_time = 101\<rparr>,
       \<lparr>gpio_get = False, get_absolute_time = 102\<rparr>,
       \<lparr>gpio_get = False, get_absolute_time = 1101\<rparr>,
       \<lparr>gpio_get = False, get_absolute_time = 5000101\<rparr>] initial))
     = [46, 46, 46, 9846, 46, 46, 46, 9846]"
proof -
  let ?ds = "\<lparr>delay_A = 46, delay_B = 46, delay_C = 46, delay_D = 9846\<rparr>"
  let ?r = "\<lparr>gpio_get = False, get_absolute_time = 102\<rparr>"
  let ?c = "\<lparr>state = Emitting, start_time = 101,
      events = [ButtonRead False, Enabled, TimeRead 101]\<rparr>"
  let ?r' = "\<lparr>gpio_get = False, get_absolute_time = 100\<rparr>"
  let ?rs = "[\<lparr>gpio_get = False, get_absolute_time = 100\<rparr>,
       \<lparr>gpio_get = False, get_absolute_time = 101\<rparr>,
       \<lparr>gpio_get = False, get_absolute_time = 102\<rparr>,
       \<lparr>gpio_get = False, get_absolute_time = 1101\<rparr>,
       \<lparr>gpio_get = False, get_absolute_time = 5000101\<rparr>]"
  have p: "session_pass ?r ?c" by code_simp
  have np: "\<not> session_pass ?r' initial" by code_simp
  have k: "session_passes ?ds ?rs initial = 2" by code_simp
  from quadruple_pushed_in_order [of ?ds "[]" 0 ?r ?c ?r' initial ?rs] p np k
  show ?thesis by (simp add: initial_def quadruple_def)
qed

text \<open>
  Claim C8. The feeder loop of the continuous program never returns: every put
  completing, the loop has no exit.
\<close>

theorem feeder_loop_never_returns: "feeder_loop ds tr = None"
proof -
  have "False" if returns: "feeder_loop ds tr = Some y" for y
    by (rule feeder_loop.raw_induct [where P = "\<lambda>_ _ _. False", OF _ returns]) blast
  then show ?thesis by (cases "feeder_loop ds tr") auto
qed

section \<open>Properties of the session loop\<close>

lemma split_before_suffix:
  assumes "tr @ es = ys @ Disabled # zs" "Disabled \<notin> set es"
  shows "\<exists>zs'. tr = ys @ Disabled # zs' \<and> zs = zs' @ es"
proof -
  from assms(1) consider us where "tr = ys @ us" "us @ es = Disabled # zs"
    | us where "tr @ us = ys" "es = us @ Disabled # zs"
    by (auto simp: append_eq_append_conv2)
  then show ?thesis
  proof cases
    case 1
    then show ?thesis using assms(2) by (cases us) auto
  next
    case 2
    then show ?thesis using assms(2) by auto
  qed
qed

lemma sessions_closed_append:
  assumes "sessions_closed ds tr" "Disabled \<notin> set es"
  shows "sessions_closed ds (tr @ es)"
  unfolding sessions_closed_def
proof (intro allI impI)
  fix ys zs
  assume "tr @ es = ys @ Disabled # zs"
  then obtain zs' where "tr = ys @ Disabled # zs'"
    using split_before_suffix [OF _ assms(2)] by blast
  then show "\<exists>xs s ts t. ys = xs @ session_events ds s ts @ [TimeRead t] \<and>
           (\<forall>t' \<in> set ts. absolute_time_diff_us s t' < SIGNAL_DURATION_US) \<and>
           \<not> absolute_time_diff_us s t < SIGNAL_DURATION_US"
    using assms(1) unfolding sessions_closed_def by blast
qed

lemma sessions_closed_exit:
  assumes "sessions_closed ds (xs @ session_events ds s ts)"
    and "\<forall>t' \<in> set ts. absolute_time_diff_us s t' < SIGNAL_DURATION_US"
    and "\<not> absolute_time_diff_us s t < SIGNAL_DURATION_US"
  shows "sessions_closed ds (xs @ session_events ds s ts @ [TimeRead t, Disabled])"
  unfolding sessions_closed_def
proof (intro allI impI)
  fix ys zs
  let ?tr = "xs @ session_events ds s ts"
  assume eq: "xs @ session_events ds s ts @ [TimeRead t, Disabled] = ys @ Disabled # zs"
  then have "(?tr @ [TimeRead t]) @ [Disabled] = ys @ Disabled # zs" by simp
  then consider us where "?tr @ [TimeRead t] = ys @ us" "us @ [Disabled] = Disabled # zs"
    | us where "(?tr @ [TimeRead t]) @ us = ys" "[Disabled] = us @ Disabled # zs"
    by (auto simp only: append_eq_append_conv2)
  then show "\<exists>xs s ts t. ys = xs @ session_events ds s ts @ [TimeRead t] \<and>
           (\<forall>t' \<in> set ts. absolute_time_diff_us s t' < SIGNAL_DURATION_US) \<and>
           \<not> absolute_time_diff_us s t < SIGNAL_DURATION_US"
  proof cases
    case 1
    show ?thesis
    proof (cases us)
      case Nil
      then have "ys = xs @ session_events ds s ts @ [TimeRead t]" using 1 by simp
      then show ?thesis using assms(2,3) by blast
    next
      case (Cons u us')
      then have u: "u = Disabled" using 1(2) by simp
      have "?tr @ [TimeRead t] = (ys @ Disabled # butlast us') @ [last (Disabled # us')]"
        using 1(1) Cons u by (cases us' rule: rev_cases) auto
      then have "?tr = ys @ Disabled # butlast us'" by (simp only: append1_eq_conv)
      then show ?thesis using assms(1) unfolding sessions_closed_def by blast
    qed
  next
    case 2
    then have "us = []" by (cases us) auto
    then have "ys = xs @ session_events ds s ts @ [TimeRead t]" using 2 by simp
    then show ?thesis using assms(2,3) by blast
  qed
qed

lemma session_events_snoc:
  "session_events ds s ts @ TimeRead t # map Put (quadruple ds) = session_events ds s (ts @ [t])"
  by (simp add: session_events_def)

lemma session_inv_step:
  assumes "session_inv ds c"
  shows "session_inv ds (step ds r c)"
proof (cases "state c")
  case Idle
  have "sessions_closed ds (events c @ [ButtonRead (gpio_get r), Enabled])"
    and "sessions_closed ds (events c @ [ButtonRead (gpio_get r)])"
    using assms by (simp_all add: session_inv_def sessions_closed_append)
  then show ?thesis using Idle by (auto simp: session_inv_def step_def)
next
  case Armed
  then obtain xs where xs: "events c = xs @ [Enabled]"
    using assms by (auto simp: session_inv_def)
  let ?t = "get_absolute_time r"
  have st: "step ds r c
      = c\<lparr>state := Emitting, start_time := ?t, events := events c @ [TimeRead ?t]\<rparr>"
    using Armed by (simp add: step_def)
  have cl: "sessions_closed ds (events c @ [TimeRead ?t])"
    using assms by (simp add: session_inv_def sessions_closed_append)
  have "events c @ [TimeRead ?t] = xs @ session_events ds ?t [] \<and>
      (\<forall>t' \<in> set []. absolute_time_diff_us ?t t' < SIGNAL_DURATION_US)"
    by (simp add: xs session_events_def)
  then have "\<exists>xs ts. events c @ [TimeRead ?t] = xs @ session_events ds ?t ts \<and>
      (\<forall>t' \<in> set ts. absolute_time_diff_us ?t t' < SIGNAL_DURATION_US)"
    by blast
  then show ?thesis using cl by (simp add: session_inv_def st)
next
  case Emitting
  then obtain xs ts where ev: "events c = xs @ session_events ds (start_time c) ts"
    and ts: "\<forall>t' \<in> set ts. absolute_time_diff_us (start_time c) t' < SIGNAL_DURATION_US"
    using assms by (auto simp: session_inv_def)
  have cl: "sessions_closed ds (events c)" using assms by (simp add: session_inv_def)
  let ?t = "get_absolute_time r"
  show ?thesis
  proof (cases "absolute_time_diff_us (start_time c) ?t < SIGNAL_DURATION_US")
    case True
    have st: "step ds r c = c\<lparr>events := feed_quadruple ds (events c @ [TimeRead ?t])\<rparr>"
      using Emitting True by (simp add: step_def)
    have e: "feed_quadruple ds (events c @ [TimeRead ?t])
        = events c @ TimeRead ?t # map Put (quadruple ds)"
      by (simp add: feed_quadruple_append quadruple_def)
    have "sessions_closed ds (events c @ TimeRead ?t # map Put (quadruple ds))"
      using cl by (rule sessions_closed_append) (auto simp: quadruple_def)
    moreover have "events c @ TimeRead ?t # map Put (quadruple ds)
        = xs @ session_events ds (start_time c) (ts @ [?t])"
      by (simp add: ev session_events_snoc [symmetric])
    moreover have "\<forall>t' \<in> set (ts @ [?t]).
        absolute_time_diff_us (start_time c) t' < SIGNAL_DURATION_US"
      using ts True by simp
    ultimately show ?thesis using Emitting unfolding session_inv_def st e
      by (simp del: set_append) blast
  next
    case False
    have st: "step ds r c = c\<lparr>state := Cooldown, events := events c @ [TimeRead ?t, Disabled]\<rparr>"
      using Emitting False by (simp add: step_def)
    have "sessions_closed ds (xs @ session_events ds (start_time c) ts @ [TimeRead ?t, Disabled])"
      using cl ts False unfolding ev by (rule sessions_closed_exit)
    then show ?thesis by (simp add: session_inv_def st ev)
  qed
next
  case Cooldown
  have "sessions_closed ds (events c @ [ButtonRead (gpio_get r)])"
    using assms by (simp add: session_inv_def sessions_closed_append)
  then show ?thesis using Cooldown by (auto simp: session_inv_def step_def)
qed

lemma session_inv_run: "session_inv ds c \<Longrightarrow> session_inv ds (run ds rs c)"
  by (induction rs arbitrary: c) (simp_all add: session_inv_step)

lemma session_inv_initial: "session_inv ds initial"
  by (simp add: session_inv_def sessions_closed_def initial_def)


lemma word_diff_no_wrap:
  fixes s t :: u64
  assumes "s \<le> t"
  shows "uint (absolute_time_diff_us s t) = uint t - uint s"
  using assms uint_sub_lem [of s t] by (simp add: absolute_time_diff_us_def word_le_def)

text \<open>
  Claim C5. The elapsed-time test of a session is made exactly once per quadruple, never
  between the four puts, and this bounds the session. Whenever the state machine is
  disabled, the events before it are a session: the enabling, the reading of the start
  time \<open>s\<close>, then tests at the readings \<open>ts\<close> that all found the elapsed time below the
  duration, each followed by one whole quadruple, and a last test at \<open>t\<close> that did not.
  With a timer that has not wrapped around, the time from \<open>s\<close> to \<open>t\<close> is at least the
  duration, and it is less than the duration plus the time of the last quadruple, from
  its test to \<open>t\<close>. Step by step: a test in a running session either finds the time
  not elapsed and puts one quadruple, or disables the state machine.
\<close>

theorem session_tests_once_per_quadruple:
  "(events (run ds rs initial) = ys @ Disabled # zs \<longrightarrow>
      (\<exists>xs s ts t.
         ys = xs @ session_events ds s ts @ [TimeRead t] \<and>
         (\<forall>t' \<in> set ts. absolute_time_diff_us s t' < SIGNAL_DURATION_US) \<and>
         \<not> absolute_time_diff_us s t < SIGNAL_DURATION_US \<and>
         (s \<le> t \<longrightarrow> uint SIGNAL_DURATION_US \<le> uint t - uint s) \<and>
         (ts \<noteq> [] \<longrightarrow> s \<le> last ts \<longrightarrow>
            uint t - uint s < uint SIGNAL_DURATION_US + (uint t - uint (last ts))))) \<and>
   (state c = Emitting \<longrightarrow>
      (if absolute_time_diff_us (start_time c) (get_absolute_time r) < SIGNAL_DURATION_US
       then state (step ds r c) = Emitting \<and>
            events (step ds r c) =
              events c @ TimeRead (get_absolute_time r) # map Put (quadruple ds)
       else state (step ds r c) = Cooldown \<and>
            events (step ds r c) = events c @ [TimeRead (get_absolute_time r), Disabled]))"
proof (intro conjI impI)
  assume ev: "events (run ds rs initial) = ys @ Disabled # zs"
  have "session_inv ds (run ds rs initial)"
    using session_inv_initial by (rule session_inv_run)
  then have "sessions_closed ds (ys @ Disabled # zs)"
    by (simp add: session_inv_def ev)
  then obtain xs s ts t where ys: "ys = xs @ session_events ds s ts @ [TimeRead t]"
    and pass: "\<forall>t' \<in> set ts. absolute_time_diff_us s t' < SIGNAL_DURATION_US"
    and exit: "\<not> absolute_time_diff_us s t < SIGNAL_DURATION_US"
    unfolding sessions_closed_def by blast
  have floor: "uint SIGNAL_DURATION_US \<le> uint t - uint s" if "s \<le> t"
    using exit word_diff_no_wrap [OF that] by (simp add: word_less_def)
  have bound: "uint t - uint s < uint SIGNAL_DURATION_US + (uint t - uint (last ts))"
    if "ts \<noteq> []" "s \<le> last ts"
  proof -
    have "absolute_time_diff_us s (last ts) < SIGNAL_DURATION_US"
      using pass that(1) by simp
    then have "uint (last ts) - uint s < uint SIGNAL_DURATION_US"
      using word_diff_no_wrap [OF that(2)] by (simp add: word_less_def)
    then show ?thesis by simp
  qed
  show "\<exists>xs s ts t.
         ys = xs @ session_events ds s ts @ [TimeRead t] \<and>
         (\<forall>t' \<in> set ts. absolute_time_diff_us s t' < SIGNAL_DURATION_US) \<and>
         \<not> absolute_time_diff_us s t < SIGNAL_DURATION_US \<and>
         (s \<le> t \<longrightarrow> uint SIGNAL_DURATION_US \<le> uint t - uint s) \<and>
         (ts \<noteq> [] \<longrightarrow> s \<le> last ts \<longrightarrow>
            uint t - uint s < uint SIGNAL_DURATION_US + (uint t - uint (last ts)))"
    using ys pass exit floor bound by blast
next
  assume "state c = Emitting"
  then show "if absolute_time_diff_us (start_time c) (get_absolute_time r) < SIGNAL_DURATION_US
       then state (step ds r c) = Emitting \<and>
            events (step ds r c) =
              events c @ TimeRead (get_absolute_time r) # map Put (quadruple ds)
       else state (step ds r c) = Cooldown \<and>
            events (step ds r c) = events c @ [TimeRead (get_absolute_time r), Disabled]"
    by (simp add: step_def feed_quadruple_append quadruple_def)
qed

theorem session_tests_once_per_quadruple_witness:
  "events (run \<lparr>delay_A = 46, delay_B = 46, delay_C = 46, delay_D = 9846\<rparr>
      [\<lparr>gpio_get = False, get_absolute_time = 100\<rparr>,
       \<lparr>gpio_get = False, get_absolute_time = 101\<rparr>,
       \<lparr>gpio_get = False, get_absolute_time = 102\<rparr>,
       \<lparr>gpio_get = False, get_absolute_time = 1101\<rparr>,
       \<lparr>gpio_get = False, get_absolute_time = 5000101\<rparr>] initial)
   = [ButtonRead False, Enabled, TimeRead 101,
      TimeRead 102, Put 46, Put 46, Put 46, Put 9846,
      TimeRead 1101, Put 46, Put 46, Put 46, Put 9846, TimeRead 5000101] @ Disabled # [] \<and>
   (\<exists>xs s ts t.
      [ButtonRead False, Enabled, TimeRead 101,
       TimeRead 102, Put 46, Put 46, Put 46, Put 9846,
       TimeRead 1101, Put 46, Put 46, Put 46, Put 9846, TimeRead 5000101]
        = xs @ session_events \<lparr>delay_A = 46, delay_B = 46, delay_C = 46, delay_D = 9846\<rparr>
            s ts @ [TimeRead t] \<and>
      (\<forall>t' \<in> set ts. absolute_time_diff_us s t' < SIGNAL_DURATION_US) \<and>
      \<not> absolute_time_diff_us s t < SIGNAL_DURATION_US \<and>
      (s \<le> t \<longrightarrow> uint SIGNAL_DURATION_US \<le> uint t - uint s) \<and>
      (ts \<noteq> [] \<longrightarrow> s \<le> last ts \<longrightarrow>
         uint t - uint s < uint SIGNAL_DURATION_US + (uint t - uint (last ts)))) \<and>
   state \<lparr>state = Emitting, start_time = 101,
          events = [ButtonRead False, Enabled, TimeRead 101]\<rparr> = Emitting \<and>
   events (step \<lparr>delay_A = 46, delay_B = 46, delay_C = 46, delay_D = 9846\<rparr>
     \<lparr>gpio_get = False, get_absolute_time = 5000101\<rparr>
     \<lparr>state = Emitting, start_time = 101,
      events = [ButtonRead False, Enabled, TimeRead 101]\<rparr>)
     = [ButtonRead False, Enabled, TimeRead 101, TimeRead 5000101, Disabled]"
proof -
  let ?ds = "\<lparr>delay_A = 46, delay_B = 46, delay_C = 46, delay_D = 9846\<rparr>"
  let ?rs = "[\<lparr>gpio_get = False, get_absolute_time = 100\<rparr>,
       \<lparr>gpio_get = False, get_absolute_time = 101\<rparr>,
       \<lparr>gpio_get = False, get_absolute_time = 102\<rparr>,
       \<lparr>gpio_get = False, get_absolute_time = 1101\<rparr>,
       \<lparr>gpio_get = False, get_absolute_time = 5000101\<rparr>]"
  let ?c = "\<lparr>state = Emitting, start_time = 101,
      events = [ButtonRead False, Enabled, TimeRead 101]\<rparr>"
  let ?r = "\<lparr>gpio_get = False, get_absolute_time = 5000101\<rparr>"
  have e: "events (run ?ds ?rs initial)
     = [ButtonRead False, Enabled, TimeRead 101,
      TimeRead 102, Put 46, Put 46, Put 46, Put 9846,
      TimeRead 1101, Put 46, Put 46, Put 46, Put 9846, TimeRead 5000101] @ Disabled # []"
    by code_simp
  have st: "state ?c = Emitting" by simp
  have ex: "\<not> absolute_time_diff_us (start_time ?c) (get_absolute_time ?r)
      < SIGNAL_DURATION_US"
    by code_simp
  have th: "(events (run ?ds ?rs initial) = [ButtonRead False, Enabled, TimeRead 101,
        TimeRead 102, Put 46, Put 46, Put 46, Put 9846,
        TimeRead 1101, Put 46, Put 46, Put 46, Put 9846, TimeRead 5000101] @ Disabled # [] \<longrightarrow>
      (\<exists>xs s ts t.
         [ButtonRead False, Enabled, TimeRead 101,
          TimeRead 102, Put 46, Put 46, Put 46, Put 9846,
          TimeRead 1101, Put 46, Put 46, Put 46, Put 9846, TimeRead 5000101]
           = xs @ session_events ?ds s ts @ [TimeRead t] \<and>
         (\<forall>t' \<in> set ts. absolute_time_diff_us s t' < SIGNAL_DURATION_US) \<and>
         \<not> absolute_time_diff_us s t < SIGNAL_DURATION_US \<and>
         (s \<le> t \<longrightarrow> uint SIGNAL_DURATION_US \<le> uint t - uint s) \<and>
         (ts \<noteq> [] \<longrightarrow> s \<le> last ts \<longrightarrow>
            uint t - uint s < uint SIGNAL_DURATION_US + (uint t - uint (last ts))))) \<and>
     (state ?c = Emitting \<longrightarrow>
      (if absolute_time_diff_us (start_time ?c) (get_absolute_time ?r) < SIGNAL_DURATION_US
       then state (step ?ds ?r ?c) = Emitting \<and>
            events (step ?ds ?r ?c) =
              events ?c @ TimeRead (get_absolute_time ?r) # map Put (quadruple ?ds)
       else state (step ?ds ?r ?c) = Cooldown \<and>
            events (step ?ds ?r ?c) = events ?c @ [TimeRead (get_absolute_time ?r), Disabled]))"
    by (rule session_tests_once_per_quadruple)
  have a: "\<exists>xs s ts t.
         [ButtonRead False, Enabled, TimeRead 101,
          TimeRead 102, Put 46, Put 46, Put 46, Put 9846,
          TimeRead 1101, Put 46, Put 46, Put 46, Put 9846, TimeRead 5000101]
           = xs @ session_events ?ds s ts @ [TimeRead t] \<and>
         (\<forall>t' \<in> set ts. absolute_time_diff_us s t' < SIGNAL_DURATION_US) \<and>
         \<not> absolute_time_diff_us s t < SIGNAL_DURATION_US \<and>
         (s \<le> t \<longrightarrow> uint SIGNAL_DURATION_US \<le> uint t - uint s) \<and>
         (ts \<noteq> [] \<longrightarrow> s \<le> last ts \<longrightarrow>
            uint t - uint s < uint SIGNAL_DURATION_US + (uint t - uint (last ts)))"
    using th e by blast
  have b: "events (step ?ds ?r ?c) = events ?c @ [TimeRead (get_absolute_time ?r), Disabled]"
    using th st ex by simp
  show ?thesis using e a st b by simp
qed

section \<open>Properties of the trigger controller\<close>

lemma pending_after_append:
  "pending_after p (xs @ ys) = pending_after (pending_after p xs) ys"
  by (induction p xs rule: pending_after.induct) simp_all

lemma rearm_ok_append:
  "rearm_ok p (xs @ ys) \<longleftrightarrow> rearm_ok p xs \<and> rearm_ok (pending_after p xs) ys"
  by (induction p xs rule: rearm_ok.induct) auto

lemma pending_stays:
  "ButtonRead True \<notin> set ys \<Longrightarrow> pending_after True ys"
proof (induction ys)
  case Nil
  show ?case by simp
next
  case (Cons e es)
  then show ?case by (cases e) auto
qed

lemma rearm_ok_release:
  assumes "rearm_ok p (xs @ Disabled # ys @ Enabled # zs)"
  shows "ButtonRead True \<in> set ys"
proof (rule ccontr)
  assume "ButtonRead True \<notin> set ys"
  then have "pending_after True ys" by (rule pending_stays)
  moreover have "\<not> pending_after True ys"
    using assms by (simp add: rearm_ok_append)
  ultimately show False by simp
qed

lemma release_inv_step: "release_inv c \<Longrightarrow> release_inv (step ds r c)"
  by (cases "state c")
    (auto simp: release_inv_def step_def feed_quadruple_append rearm_ok_append
      pending_after_append)

lemma release_inv_run: "release_inv c \<Longrightarrow> release_inv (run ds rs c)"
  by (induction rs arbitrary: c) (simp_all add: release_inv_step)

text \<open>
  Claim C6. After a session has ended the gated program does not enable the state machine
  again before it has read the button as released: between a disabling and the next
  enabling there is a reading of the button that is high.
\<close>

theorem no_rearm_before_release:
  assumes "events (run ds rs initial) = xs @ Disabled # ys @ Enabled # zs"
  shows "ButtonRead True \<in> set ys"
proof -
  have "release_inv initial" by (simp add: release_inv_def initial_def)
  then have "release_inv (run ds rs initial)" by (rule release_inv_run)
  then have "rearm_ok False (xs @ Disabled # ys @ Enabled # zs)"
    by (simp add: release_inv_def assms)
  then show ?thesis by (rule rearm_ok_release)
qed

theorem no_rearm_before_release_witness:
  "events (run \<lparr>delay_A = 46, delay_B = 46, delay_C = 46, delay_D = 9846\<rparr>
      [\<lparr>gpio_get = False, get_absolute_time = 100\<rparr>,
       \<lparr>gpio_get = False, get_absolute_time = 101\<rparr>,
       \<lparr>gpio_get = False, get_absolute_time = 102\<rparr>,
       \<lparr>gpio_get = False, get_absolute_time = 5000101\<rparr>,
       \<lparr>gpio_get = False, get_absolute_time = 5000102\<rparr>,
       \<lparr>gpio_get = True, get_absolute_time = 5000103\<rparr>,
       \<lparr>gpio_get = False, get_absolute_time = 5000104\<rparr>] initial)
   = [ButtonRead False, Enabled, TimeRead 101, TimeRead 102, Put 46, Put 46, Put 46,
      Put 9846, TimeRead 5000101] @
     Disabled # [ButtonRead False, ButtonRead True, ButtonRead False] @ Enabled # [] \<and>
   ButtonRead True \<in> set [ButtonRead False, ButtonRead True, ButtonRead False]"
proof -
  let ?ds = "\<lparr>delay_A = 46, delay_B = 46, delay_C = 46, delay_D = 9846\<rparr>"
  let ?rs = "[\<lparr>gpio_get = False, get_absolute_time = 100\<rparr>,
       \<lparr>gpio_get = False, get_absolute_time = 101\<rparr>,
       \<lparr>gpio_get = False, get_absolute_time = 102\<rparr>,
       \<lparr>gpio_get = False, get_absolute_time = 5000101\<rparr>,
       \<lparr>gpio_get = False, get_absolute_time = 5000102\<rparr>,
       \<lparr>gpio_get = True, get_absolute_time = 5000103\<rparr>,
       \<lparr>gpio_get = False, get_absolute_time = 5000104\<rparr>]"
  have e: "events (run ?ds ?rs initial)
     = [ButtonRead False, Enabled, TimeRead 101, TimeRead 102, Put 46, Put 46, Put 46,
        Put 9846, TimeRead 5000101] @
       Disabled # [ButtonRead False, ButtonRead True, ButtonRead False] @ Enabled # []"
    by code_simp
  show ?thesis using e no_rearm_before_release [OF e] by simp
qed

end
